theory Spec2Isabelle
  imports Complex_Main "HOL-Library.Word" "HOL-Library.Log_Nat"
begin

unbundle bit_operations_syntax

section \<open>The SHT4x driver of pigpio\_sht4x\<close>

text \<open>
  The module \<^verbatim>\<open>src/pigpio_sht4x/__init__.py\<close> holds a table-driven CRC-8, a decoder of
  the sensor's six-byte answer and a small session class over the pigpio I2C calls.
  Python integers are unbounded and are modelled as \<^typ>\<open>int\<close>; the elements of a
  \<^verbatim>\<open>bytes\<close> object are modelled as \<^typ>\<open>8 word\<close>; every \<^verbatim>\<open>raise\<close> is a value
  of the type \<open>error\<close>.
\<close>

subsection \<open>Data\<close>

type_synonym byte = "8 word"

text \<open>
  The exceptions the module can end with. The \<^verbatim>\<open>RuntimeError\<close>s carry the values that
  the source formats into their messages:
  \<^item> \<open>Cannot_open bus address\<close>: \<^verbatim>\<open>"Cannot open I2C bus{bus}@0x{address:02X}"\<close>;
  \<^item> \<open>Soft_reset_failed\<close>: \<^verbatim>\<open>"SHT4x soft reset failed"\<close>;
  \<^item> \<open>Measure_cmd_failed\<close>: \<^verbatim>\<open>"SHT4x measure cmd failed"\<close>;
  \<^item> \<open>Expected_bytes 6 count\<close>: \<^verbatim>\<open>"Expected 6 bytes, got {count}"\<close>;
  \<^item> \<open>Temperature_CRC_fail computed embedded\<close>:
    \<^verbatim>\<open>"SHT4x temperature CRC fail: {hex(crc8_fast(t_bytes))} != {hex(t_crc)}"\<close>;
  \<^item> \<open>Humidity_CRC_fail computed embedded\<close>: the same message for the humidity word.

  \<open>IndexError\<close> is Python's own exception of an index out of range, and
  \<open>Pigpio_error code\<close> stands for an exception raised inside a pigpio call.
\<close>

datatype error =
    Cannot_open int int
  | Soft_reset_failed
  | Measure_cmd_failed
  | Expected_bytes int int
  | Temperature_CRC_fail int int
  | Humidity_CRC_fail int int
  | IndexError
  | Pigpio_error int

subsection \<open>Python list and bytes access\<close>

text \<open>
  \<^verbatim>\<open>xs[i]\<close>: the indices \<open>0, \<dots>, len - 1\<close> read from the front, the indices
  \<open>-len, \<dots>, -1\<close> read from the back, and every other index raises \<^verbatim>\<open>IndexError\<close>.
\<close>

definition getitem :: "'a list \<Rightarrow> int \<Rightarrow> error + 'a" where
  "getitem xs i =
     (if 0 \<le> i \<and> i < int (length xs) then Inr (xs ! nat i)
      else if - int (length xs) \<le> i \<and> i < 0 then Inr (xs ! nat (int (length xs) + i))
      else Inl IndexError)"

text \<open>\<^verbatim>\<open>xs[i:j]\<close> for constant bounds \<open>0 \<le> i \<le> j\<close>: a slice never raises, it is cut short.\<close>

definition slice :: "'a list \<Rightarrow> nat \<Rightarrow> nat \<Rightarrow> 'a list" where
  "slice xs i j = take (j - i) (drop i xs)"

text \<open>\<^verbatim>\<open>range(n)\<close> as the list of its values.\<close>

definition py_range :: "int \<Rightarrow> int list" where
  "py_range n = [0..n - 1]"

subsection \<open>The CRC table\<close>

text \<open>
  The body of the inner loop \<^verbatim>\<open>for _ in range(8)\<close> of \<^verbatim>\<open>make_crc_table\<close>:
  \<^verbatim>\<open>
  if crc & 0x80:
      crc = ((crc << 1) & 0xFF) ^ poly
  else:
      crc = (crc << 1) & 0xFF
  \<close>
\<close>

definition crc_shift :: "int \<Rightarrow> int \<Rightarrow> int" where
  "crc_shift poly crc =
     (if crc AND 0x80 \<noteq> 0 then (push_bit 1 crc AND 0xFF) XOR poly
      else push_bit 1 crc AND 0xFF)"

text \<open>The inner loop, run \<open>n\<close> times.\<close>

primrec crc_bits :: "int \<Rightarrow> nat \<Rightarrow> int \<Rightarrow> int" where
  "crc_bits poly 0 crc = crc"
| "crc_bits poly (Suc n) crc = crc_bits poly n (crc_shift poly crc)"

text \<open>The outer loop \<^verbatim>\<open>for byte in range(256)\<close>, appending one entry for each byte.\<close>

fun table_loop :: "int \<Rightarrow> int list \<Rightarrow> int list \<Rightarrow> int list" where
  "table_loop poly [] table = table"
| "table_loop poly (byte # rest) table = table_loop poly rest (table @ [crc_bits poly 8 byte])"

definition make_crc_table :: "int \<Rightarrow> int list" where
  "make_crc_table poly = table_loop poly (py_range 256) []"

definition CRC_TABLE :: "int list" where
  "CRC_TABLE = make_crc_table 0x31"

subsection \<open>The checksum\<close>

text \<open>
  \<^verbatim>\<open>
  def crc8_fast(data: bytes, init=0xFF) -> int:
      crc = init
      for byte in data:
          crc = CRC_TABLE[crc ^ byte]
      return crc
  \<close>
  The first argument of \<open>crc8_loop\<close> is the running value.
\<close>

fun crc8_loop :: "int \<Rightarrow> byte list \<Rightarrow> error + int" where
  "crc8_loop crc [] = Inr crc"
| "crc8_loop crc (byte # data) =
     (case getitem CRC_TABLE (crc XOR uint byte) of
        Inl e \<Rightarrow> Inl e
      | Inr crc' \<Rightarrow> crc8_loop crc' data)"

definition crc8_fast :: "byte list \<Rightarrow> int \<Rightarrow> error + int" where
  "crc8_fast data init = crc8_loop init data"

subsection \<open>Python floats\<close>

text \<open>
  A Python \<^verbatim>\<open>float\<close> is an IEEE 754 binary64 number. Its finite values are modelled
  as the rational numbers they denote, and every arithmetic operation as the exact
  operation followed by \<open>round_double\<close>, rounding to the nearest number with a 53-bit
  significand, ties to the even significand, with the exponent of the last place not
  below \<open>-1074\<close> (the subnormal numbers). The decoder only divides by the literal
  \<^verbatim>\<open>65535.0\<close> and all its operands are far below \<open>2 ^ 1024\<close> in magnitude, so
  neither a division by zero nor an infinity arises.
\<close>

type_synonym double = rat

text \<open>\<open>binade x\<close> is the integer \<open>k\<close> with \<open>2 ^ k \<le> \<bar>x\<bar> < 2 ^ (k + 1)\<close>, for \<open>x \<noteq> 0\<close>.\<close>

definition binade :: "rat \<Rightarrow> int" where
  "binade x =
     (if 1 \<le> \<bar>x\<bar> then bitlen \<lfloor>\<bar>x\<bar>\<rfloor> - 1 else - bitlen (\<lceil>1 / \<bar>x\<bar>\<rceil> - 1))"

definition round_half_even :: "rat \<Rightarrow> int" where
  "round_half_even x =
     (let f = \<lfloor>x\<rfloor>; d = x - of_int f
      in if d < 1 / 2 then f
         else if 1 / 2 < d then f + 1
         else if even f then f else f + 1)"

definition round_double :: "rat \<Rightarrow> double" where
  "round_double x =
     (if x = 0 then 0
      else let e = max (binade x - 52) (- 1074)
           in of_int (round_half_even (x / 2 powi e)) * 2 powi e)"

text \<open>The conversion of an \<^verbatim>\<open>int\<close> operand and the three operations the decoder uses.\<close>

definition float_of_int :: "int \<Rightarrow> double" where
  "float_of_int n = round_double (of_int n)"

definition float_truediv :: "double \<Rightarrow> double \<Rightarrow> double" where
  "float_truediv x y = round_double (x / y)"

definition float_mul :: "double \<Rightarrow> double \<Rightarrow> double" where
  "float_mul x y = round_double (x * y)"

definition float_add :: "double \<Rightarrow> double \<Rightarrow> double" where
  "float_add x y = round_double (x + y)"

subsection \<open>The decoder\<close>

text \<open>\<^verbatim>\<open>int.from_bytes(bs, "big")\<close>: the first byte is the most significant.\<close>

definition from_bytes_big :: "byte list \<Rightarrow> int" where
  "from_bytes_big bs = foldl (\<lambda>acc b. acc * 256 + uint b) 0 bs"

text \<open>
  \<^verbatim>\<open>
  def parse_sht4x(self, buf: bytes):
      t_bytes = buf[0:2]
      t_crc   = buf[2]
      h_bytes = buf[3:5]
      h_crc   = buf[5]
      if crc8_fast(t_bytes) != t_crc:
          raise RuntimeError(f"SHT4x temperature CRC fail: {hex(crc8_fast(t_bytes))} != {hex(t_crc)}")
      if crc8_fast(h_bytes) != h_crc:
          raise RuntimeError(f"SHT4x humidity    CRC fail: {hex(crc8_fast(h_bytes))} != {hex(h_crc)}")
      t_raw = int.from_bytes(t_bytes, "big")
      h_raw = int.from_bytes(h_bytes, "big")
      temperature = -45 + 175 * (t_raw / 65535.0)
      humidity    = 100 * (h_raw  / 65535.0)
      return temperature, humidity
  \<close>
  The method does not use \<^verbatim>\<open>self\<close>. The message of a failed check calls
  \<^verbatim>\<open>crc8_fast\<close> a second time on the same bytes.
\<close>

definition temperature_of :: "int \<Rightarrow> double" where
  "temperature_of t_raw =
     float_add (float_of_int (- 45))
       (float_mul (float_of_int 175) (float_truediv (float_of_int t_raw) 65535))"

definition humidity_of :: "int \<Rightarrow> double" where
  "humidity_of h_raw =
     float_mul (float_of_int 100) (float_truediv (float_of_int h_raw) 65535)"

definition parse_sht4x :: "byte list \<Rightarrow> error + (double \<times> double)" where
  "parse_sht4x buf =
     (let t_bytes = slice buf 0 2 in
      case getitem buf 2 of Inl e \<Rightarrow> Inl e | Inr t_crc \<Rightarrow>
      let h_bytes = slice buf 3 5 in
      case getitem buf 5 of Inl e \<Rightarrow> Inl e | Inr h_crc \<Rightarrow>
      case crc8_fast t_bytes 0xFF of Inl e \<Rightarrow> Inl e | Inr t_sum \<Rightarrow>
      if t_sum \<noteq> uint t_crc then
        (case crc8_fast t_bytes 0xFF of Inl e \<Rightarrow> Inl e
         | Inr t_sum' \<Rightarrow> Inl (Temperature_CRC_fail t_sum' (uint t_crc)))
      else
      case crc8_fast h_bytes 0xFF of Inl e \<Rightarrow> Inl e | Inr h_sum \<Rightarrow>
      if h_sum \<noteq> uint h_crc then
        (case crc8_fast h_bytes 0xFF of Inl e \<Rightarrow> Inl e
         | Inr h_sum' \<Rightarrow> Inl (Humidity_CRC_fail h_sum' (uint h_crc)))
      else
      let t_raw = from_bytes_big t_bytes;
          h_raw = from_bytes_big h_bytes
      in Inr (temperature_of t_raw, humidity_of h_raw))"

subsection \<open>The transport\<close>

text \<open>
  The session talks to the bus through four methods of a \<^verbatim>\<open>pigpio.pi\<close> object and
  waits with \<^verbatim>\<open>time.sleep\<close>. These are outside the module. A run is recorded as the
  list of the calls made so far, oldest first, and the transport is any family of
  answers that may depend on that list: a pigpio call either returns its value or
  raises (\<open>Inl\<close>).
\<close>

datatype call =
    I2c_open int int
  | I2c_write_byte int int
  | I2c_read_device int int
  | I2c_close int
  | Time_sleep double

record pigpio =
  i2c_open :: "call list \<Rightarrow> int \<Rightarrow> int \<Rightarrow> error + int"
  i2c_write_byte :: "call list \<Rightarrow> int \<Rightarrow> int \<Rightarrow> error + int"
  i2c_read_device :: "call list \<Rightarrow> int \<Rightarrow> int \<Rightarrow> error + (int \<times> byte list)"
  i2c_close :: "call list \<Rightarrow> int \<Rightarrow> error + int"

subsection \<open>The session\<close>

text \<open>The class attributes of \<^verbatim>\<open>SHT4x\<close>.\<close>

definition SOFT_RESET :: int where "SOFT_RESET = 0x94"
definition NOHEAT_HIGHPRECISION :: int where "NOHEAT_HIGHPRECISION = 0xFD"
definition NOHEAT_MEDPRECISION :: int where "NOHEAT_MEDPRECISION = 0xF6"
definition NOHEAT_LOWPRECISION :: int where "NOHEAT_LOWPRECISION = 0xE0"
definition HIGHHEAT_1S :: int where "HIGHHEAT_1S = 0x39"
definition HIGHHEAT_100MS :: int where "HIGHHEAT_100MS = 0x3A"
definition MEDHEAT_1S :: int where "MEDHEAT_1S = 0x32"
definition MEDHEAT_100MS :: int where "MEDHEAT_100MS = 0x33"
definition LOWHEAT_1S :: int where "LOWHEAT_1S = 0x2F"
definition LOWHEAT_100MS :: int where "LOWHEAT_100MS = 0x30"

text \<open>
  The instance attributes \<^verbatim>\<open>self.pi\<close>, \<^verbatim>\<open>self.handle\<close> and \<^verbatim>\<open>self.mode\<close>. No
  method assigns to them after \<^verbatim>\<open>__init__\<close>, so the methods below return a result
  and the extended list of calls, and the session itself stays as it is. A caller
  changes the mode by assigning to the attribute: \<open>s\<lparr>mode := m\<rparr>\<close>.
\<close>

record SHT4x =
  pi' :: pigpio
  handle :: int
  mode :: int

text \<open>
  \<^verbatim>\<open>
  def __init__(self, pi=None, bus=0, address=0x44, mode=None):
      if not pi: pi = pigpio.pi()
      self.pi = pi
      self.handle = pi.i2c_open(bus, address)
      if self.handle < 0:
          raise RuntimeError(f"Cannot open I2C bus{bus}@0x{address:02X}")
      self.mode = mode or self.NOHEAT_HIGHPRECISION
  \<close>
  \<open>new_pi\<close> is the object that \<^verbatim>\<open>pigpio.pi()\<close> would create. \<^verbatim>\<open>mode or \<dots>\<close> takes
  the default for \<^verbatim>\<open>None\<close> and for \<^verbatim>\<open>0\<close>.
\<close>

definition init ::
  "pigpio \<Rightarrow> pigpio option \<Rightarrow> int \<Rightarrow> int \<Rightarrow> int option \<Rightarrow> call list \<Rightarrow> (error + SHT4x) \<times> call list"
where
  "init new_pi pi_arg bus address mode_arg h =
     (let p = (case pi_arg of None \<Rightarrow> new_pi | Some q \<Rightarrow> q);
          h1 = h @ [I2c_open bus address]
      in case i2c_open p h bus address of
           Inl e \<Rightarrow> (Inl e, h1)
         | Inr hdl \<Rightarrow>
             if hdl < 0 then (Inl (Cannot_open bus address), h1)
             else (Inr \<lparr>pi' = p, handle = hdl,
                        mode = (case mode_arg of
                                  None \<Rightarrow> NOHEAT_HIGHPRECISION
                                | Some m \<Rightarrow> if m = 0 then NOHEAT_HIGHPRECISION else m)\<rparr>, h1))"

text \<open>
  \<^verbatim>\<open>
  def reset(self):
      rc = self.pi.i2c_write_byte(self.handle, self.SOFT_RESET)
      if rc != 0:
          raise RuntimeError("SHT4x soft reset failed")
  \<close>
\<close>

definition reset :: "SHT4x \<Rightarrow> call list \<Rightarrow> (error + unit) \<times> call list" where
  "reset s h =
     (let h1 = h @ [I2c_write_byte (handle s) SOFT_RESET]
      in case i2c_write_byte (pi' s) h (handle s) SOFT_RESET of
           Inl e \<Rightarrow> (Inl e, h1)
         | Inr rc \<Rightarrow> if rc \<noteq> 0 then (Inl Soft_reset_failed, h1) else (Inr (), h1))"

text \<open>The argument of \<^verbatim>\<open>time.sleep\<close> in \<open>read\<close>: the float literal \<^verbatim>\<open>0.01\<close>, in seconds.\<close>

definition settle_time :: double where
  "settle_time = round_double (1 / 100)"

text \<open>
  \<^verbatim>\<open>
  def read(self):
      rc = self.pi.i2c_write_byte(self.handle, self.mode)
      if rc != 0:
          raise RuntimeError("SHT4x measure cmd failed")
      time.sleep(0.01)
      count, data = self.pi.i2c_read_device(self.handle, 6)
      if count != 6:
          raise RuntimeError(f"Expected 6 bytes, got {count}")
      return data.encode("latin1") if isinstance(data, str) else data
  \<close>
  The data of the transport is taken as the bytes it denotes.
\<close>

definition read :: "SHT4x \<Rightarrow> call list \<Rightarrow> (error + byte list) \<times> call list" where
  "read s h =
     (let h1 = h @ [I2c_write_byte (handle s) (mode s)]
      in case i2c_write_byte (pi' s) h (handle s) (mode s) of
           Inl e \<Rightarrow> (Inl e, h1)
         | Inr rc \<Rightarrow>
             if rc \<noteq> 0 then (Inl Measure_cmd_failed, h1)
             else
               let h2 = h1 @ [Time_sleep settle_time];
                   h3 = h2 @ [I2c_read_device (handle s) 6]
               in case i2c_read_device (pi' s) h2 (handle s) 6 of
                    Inl e \<Rightarrow> (Inl e, h3)
                  | Inr (count, data) \<Rightarrow>
                      if count \<noteq> 6 then (Inl (Expected_bytes 6 count), h3)
                      else (Inr data, h3))"

text \<open>The property \<^verbatim>\<open>measurements\<close>: \<^verbatim>\<open>return self.parse_sht4x(self.read())\<close>.\<close>

definition measurements :: "SHT4x \<Rightarrow> call list \<Rightarrow> (error + (double \<times> double)) \<times> call list" where
  "measurements s h =
     (case read s h of
        (Inl e, h') \<Rightarrow> (Inl e, h')
      | (Inr buf, h') \<Rightarrow> (parse_sht4x buf, h'))"

text \<open>
  \<^verbatim>\<open>
  def close(self):
      self.pi.i2c_close(self.handle)
  \<close>
  The value that \<^verbatim>\<open>i2c_close\<close> returns is dropped.
\<close>

definition close :: "SHT4x \<Rightarrow> call list \<Rightarrow> (error + unit) \<times> call list" where
  "close s h =
     (let h1 = h @ [I2c_close (handle s)]
      in case i2c_close (pi' s) h (handle s) of
           Inl e \<Rightarrow> (Inl e, h1)
         | Inr rc \<Rightarrow> (Inr (), h1))"

subsection \<open>The CRC engine as the specification words it\<close>

text \<open>
  The specification describes the table over byte values: eight iterations of
  ``if the high bit is set, shift left one bit and exclusive-or with the polynomial
  (mask to 8 bits); else shift left one bit (mask to 8 bits)'', and the checksum as the
  fold of \<open>table[running_value XOR next_byte]\<close> over the input. On \<^typ>\<open>8 word\<close> the
  shift masks to 8 bits by itself. These definitions are compared with the code above.
\<close>

definition spec_step :: "byte \<Rightarrow> byte \<Rightarrow> byte" where
  "spec_step polynomial c = (if bit c 7 then push_bit 1 c XOR polynomial else push_bit 1 c)"

definition spec_build_table :: "byte \<Rightarrow> byte \<Rightarrow> byte" where
  "spec_build_table polynomial b = (spec_step polynomial ^^ 8) b"

definition spec_checksum :: "byte list \<Rightarrow> (byte \<Rightarrow> byte) \<Rightarrow> byte \<Rightarrow> byte" where
  "spec_checksum data table initial =
     foldl (\<lambda>running_value next_byte. table (running_value XOR next_byte)) initial data"

text \<open>The values of a byte, as Python integers.\<close>

definition is_byte :: "int \<Rightarrow> bool" where
  "is_byte x \<longleftrightarrow> 0 \<le> x \<and> x < 256"

subsection \<open>A transport for the examples\<close>

text \<open>
  A transport that opens with handle 1, accepts every write and every close with status
  0, and answers every read with the given count and data; and a session on it, as
  \<^verbatim>\<open>__init__\<close> makes it with the default mode.
\<close>

definition stub_pi :: "int \<Rightarrow> byte list \<Rightarrow> pigpio" where
  "stub_pi count data =
     \<lparr>i2c_open = (\<lambda>h bus address. Inr 1),
      i2c_write_byte = (\<lambda>h hdl b. Inr 0),
      i2c_read_device = (\<lambda>h hdl n. Inr (count, data)),
      i2c_close = (\<lambda>h hdl. Inr 0)\<rparr>"

definition stub_session :: "int \<Rightarrow> byte list \<Rightarrow> SHT4x" where
  "stub_session count data = \<lparr>pi' = stub_pi count data, handle = 1, mode = 0xFD\<rparr>"

text \<open>The checksum of a two-byte word from \<open>0xFF\<close>, unfolded: two table look-ups.\<close>

definition crc2 :: "int \<Rightarrow> int \<Rightarrow> int" where
  "crc2 x y = crc_bits 0x31 8 (crc_bits 0x31 8 (0xFF XOR x) XOR y)"

section \<open>Properties\<close>

subsection \<open>Bytes and the table\<close>

lemma and_255: "(x::int) AND 0xFF = take_bit 8 x"
proof -
  have "(0xFF::int) = mask 8" by (simp add: mask_eq_exp_minus_1)
  then show ?thesis by (simp add: take_bit_eq_mask)
qed

lemma and_128: "((x::int) AND 0x80 \<noteq> 0) = bit x 7"
proof -
  have "(0x80::int) = 2 ^ 7" by simp
  then show ?thesis
    by (simp only: and_exp_eq_0_iff_not_bit) simp
qed

lemma is_byte_take_bit: "is_byte x \<longleftrightarrow> take_bit 8 x = x"
  by (simp add: is_byte_def take_bit_int_eq_self_iff)

lemma is_byte_xor: "is_byte a \<Longrightarrow> is_byte b \<Longrightarrow> is_byte (a XOR b)"
  by (simp add: is_byte_take_bit take_bit_xor)

lemma is_byte_uint: "is_byte (uint (b :: byte))"
  using uint_lt2p [of b] by (simp add: is_byte_def)

lemma crc_shift_alt: "crc_shift poly c = take_bit 8 (push_bit 1 c) XOR (if bit c 7 then poly else 0)"
  by (simp add: crc_shift_def and_255 and_128)

lemma crc_shift_byte: "is_byte poly \<Longrightarrow> is_byte (crc_shift poly c)"
  by (simp add: crc_shift_alt is_byte_xor is_byte_take_bit)

lemma crc_shift_xor: "crc_shift poly (a XOR b) = crc_shift poly a XOR crc_shift poly b"
  by (simp add: crc_shift_alt bit_xor_iff take_bit_xor ac_simps)

lemma crc_bits_xor: "crc_bits poly n (a XOR b) = crc_bits poly n a XOR crc_bits poly n b"
  by (induction n arbitrary: a b) (simp_all add: crc_shift_xor)

lemma crc_bits_byte: "is_byte poly \<Longrightarrow> is_byte c \<Longrightarrow> is_byte (crc_bits poly n c)"
  by (induction n arbitrary: c) (simp_all add: crc_shift_byte)

lemma table_loop_map: "table_loop poly xs t = t @ map (crc_bits poly 8) xs"
  by (induction xs arbitrary: t) auto

lemma length_make_crc_table: "length (make_crc_table poly) = 256"
  by (simp add: make_crc_table_def table_loop_map py_range_def)

lemma nth_make_crc_table: "is_byte b \<Longrightarrow> make_crc_table poly ! nat b = crc_bits poly 8 b"
proof -
  assume b: "is_byte b"
  then have "nat b < length [0..255]" by (auto simp add: is_byte_def)
  moreover from b have "[0..255] ! nat b = b" by (auto simp add: is_byte_def)
  ultimately show ?thesis
    by (simp add: make_crc_table_def table_loop_map py_range_def del: upto.simps)
qed

lemma getitem_CRC_TABLE: "is_byte i \<Longrightarrow> getitem CRC_TABLE i = Inr (crc_bits 0x31 8 i)"
  by (simp add: getitem_def CRC_TABLE_def length_make_crc_table nth_make_crc_table)
    (simp add: is_byte_def)

lemma is_byte_poly: "is_byte 0x31"
  by (simp add: is_byte_def)

lemma crc8_loop_byte:
  "is_byte crc \<Longrightarrow> \<exists>c. crc8_loop crc data = Inr c \<and> is_byte c"
proof (induction data arbitrary: crc)
  case Nil
  then show ?case by simp
next
  case (Cons b data)
  have i: "is_byte (crc XOR uint b)" using Cons.prems by (simp add: is_byte_xor is_byte_uint)
  have "is_byte (crc_bits 0x31 8 (crc XOR uint b))"
    by (rule crc_bits_byte [OF is_byte_poly i])
  from Cons.IH [OF this] show ?case by (simp add: getitem_CRC_TABLE [OF i])
qed

lemma crc8_fast_two:
  "crc8_fast [a, b] 0xFF = Inr (crc_bits 0x31 8 (crc_bits 0x31 8 (0xFF XOR uint a) XOR uint b))"
proof -
  have "is_byte 0xFF" by (simp add: is_byte_def)
  then have i: "is_byte (0xFF XOR uint a)" by (simp add: is_byte_xor is_byte_uint)
  have j: "is_byte (crc_bits 0x31 8 (0xFF XOR uint a) XOR uint b)"
    by (simp add: is_byte_xor is_byte_uint crc_bits_byte [OF is_byte_poly i])
  show ?thesis by (simp add: crc8_fast_def getitem_CRC_TABLE [OF i] getitem_CRC_TABLE [OF j])
qed

subsection \<open>The code against the specification's CRC engine\<close>

lemma uint_spec_step: "uint (spec_step p c) = crc_shift (uint p) (uint c)"
proof -
  have "uint (push_bit 1 c) = take_bit 8 (push_bit 1 (uint c))"
    by (simp add: uint_word_ariths take_bit_eq_mod)
  moreover have "bit (uint c) 7 = bit c 7" by (simp add: bit_uint_iff)
  ultimately show ?thesis
    by (simp add: spec_step_def crc_shift_alt uint_xor)
qed

lemma uint_spec_steps: "uint ((spec_step p ^^ n) c) = crc_bits (uint p) n (uint c)"
proof (induction n arbitrary: c)
  case 0
  then show ?case by simp
next
  case (Suc n)
  have "(spec_step p ^^ Suc n) c = (spec_step p ^^ n) (spec_step p c)"
    by (simp add: funpow_swap1)
  then show ?case by (simp add: Suc.IH uint_spec_step)
qed

lemma uint_spec_build_table: "uint (spec_build_table 0x31 b) = crc_bits 0x31 8 (uint b)"
  using uint_spec_steps [where p = "0x31" and n = 8 and c = b] by (simp add: spec_build_table_def)

lemma crc8_loop_spec:
  "crc8_loop (uint c) data = Inr (uint (spec_checksum data (spec_build_table 0x31) c))"
proof (induction data arbitrary: c)
  case Nil
  then show ?case by (simp add: spec_checksum_def)
next
  case (Cons b data)
  have i: "is_byte (uint c XOR uint b)" by (simp add: is_byte_xor is_byte_uint)
  have "crc_bits 0x31 8 (uint c XOR uint b) = uint (spec_build_table 0x31 (c XOR b))"
    by (simp add: uint_spec_build_table uint_xor)
  then show ?case
    using Cons.IH [of "spec_build_table 0x31 (c XOR b)"]
    by (simp add: getitem_CRC_TABLE [OF i] spec_checksum_def)
qed

text \<open>
  Claim C1. From the initial value \<open>0xFF\<close>, \<open>crc8_fast\<close> returns for every byte
  sequence the fold of \<open>table[running_value XOR next_byte]\<close> over the bytes, for the
  table of polynomial \<open>0x31\<close>, with no final exclusive-or; for the bytes
  \<open>[0xBE, 0xEF]\<close> it returns \<open>0x92\<close>.
\<close>

theorem crc8_fast_is_spec_checksum:
  "crc8_fast data 0xFF = Inr (uint (spec_checksum data (spec_build_table 0x31) 0xFF))
   \<and> crc8_fast [0xBE, 0xEF] 0xFF = Inr 0x92"
proof
  show "crc8_fast data 0xFF = Inr (uint (spec_checksum data (spec_build_table 0x31) 0xFF))"
    using crc8_loop_spec [of "0xFF" data] by (simp add: crc8_fast_def)
  show "crc8_fast [0xBE, 0xEF] 0xFF = Inr 0x92"
    by code_simp
qed

text \<open>
  Claim C5. The table built from polynomial \<open>0x31\<close> has exactly 256 entries, and its
  entry at every byte value \<open>b\<close> is the result of eight iterations, starting from
  \<open>b\<close>, of the specification's shift-and-xor step.
\<close>

theorem make_crc_table_entries:
  "length (make_crc_table 0x31) = 256
   \<and> (\<forall>b. make_crc_table 0x31 ! unat b = uint ((spec_step 0x31 ^^ 8) b))"
proof (intro conjI allI)
  show "length (make_crc_table 0x31) = 256" by (rule length_make_crc_table)
next
  fix b :: byte
  have "make_crc_table 0x31 ! nat (uint b) = crc_bits 0x31 8 (uint b)"
    by (rule nth_make_crc_table) (rule is_byte_uint)
  then show "make_crc_table 0x31 ! unat b = uint ((spec_step 0x31 ^^ 8) b)"
    using uint_spec_steps [where p = "0x31" and n = 8 and c = b] by simp
qed

subsection \<open>Every value of the CRC code is a byte\<close>

lemma set_make_crc_table: "set (make_crc_table poly) = crc_bits poly 8 ` {0..255}"
  by (simp add: make_crc_table_def table_loop_map py_range_def del: upto.simps)

lemma crc8_loop_append:
  "crc8_loop crc (xs @ ys) =
     (case crc8_loop crc xs of Inl e \<Rightarrow> Inl e | Inr crc' \<Rightarrow> crc8_loop crc' ys)"
  by (induction xs arbitrary: crc) (simp_all split: sum.splits)

text \<open>
  Claim C10. For a polynomial in \<open>0..255\<close> every entry of the table that
  \<open>make_crc_table\<close> builds lies in \<open>0..255\<close>; and for an initial value in \<open>0..255\<close>
  the running value of \<open>crc8_fast\<close> after any number \<open>k\<close> of bytes (the result on the
  first \<open>k\<close> bytes, by \<open>crc8_loop_append\<close>) exists and lies in \<open>0..255\<close>, as does the
  index \<open>crc XOR byte\<close> of the next look-up; so no look-up raises and the checksum
  returned is a byte.
\<close>

theorem crc_values_are_bytes:
  assumes "0 \<le> poly" "poly \<le> 255" "0 \<le> start" "start \<le> 255"
  shows "(\<forall>x \<in> set (make_crc_table poly). 0 \<le> x \<and> x \<le> 255)
    \<and> (\<forall>k \<le> length data. \<exists>crc. crc8_fast (take k data) start = Inr crc \<and> 0 \<le> crc \<and> crc \<le> 255
          \<and> (k < length data \<longrightarrow>
                0 \<le> crc XOR uint (data ! k) \<and> crc XOR uint (data ! k) \<le> 255))"
proof (rule conjI)
  show "\<forall>x \<in> set (make_crc_table poly). 0 \<le> x \<and> x \<le> 255"
  proof (rule ballI)
    fix x
    assume "x \<in> set (make_crc_table poly)"
    then obtain b where b: "b \<in> {0..255}" and x: "x = crc_bits poly 8 b"
      unfolding set_make_crc_table by blast
    have "is_byte poly" using assms(1,2) by (simp add: is_byte_def)
    moreover have "is_byte b" using b by (simp add: is_byte_def)
    ultimately have "is_byte x" unfolding x by (rule crc_bits_byte)
    then show "0 \<le> x \<and> x \<le> 255" by (simp add: is_byte_def)
  qed
next
  have s: "is_byte start" using assms(3,4) by (simp add: is_byte_def)
  show "\<forall>k \<le> length data. \<exists>crc. crc8_fast (take k data) start = Inr crc \<and> 0 \<le> crc \<and> crc \<le> 255
          \<and> (k < length data \<longrightarrow>
                0 \<le> crc XOR uint (data ! k) \<and> crc XOR uint (data ! k) \<le> 255)"
  proof (intro allI impI)
    fix k
    from crc8_loop_byte [OF s, of "take k data"]
    obtain crc where c: "crc8_loop start (take k data) = Inr crc" and cb: "is_byte crc"
      by blast
    have "is_byte (crc XOR uint (data ! k))" using cb by (simp add: is_byte_xor is_byte_uint)
    with c cb show "\<exists>crc. crc8_fast (take k data) start = Inr crc \<and> 0 \<le> crc \<and> crc \<le> 255
          \<and> (k < length data \<longrightarrow>
                0 \<le> crc XOR uint (data ! k) \<and> crc XOR uint (data ! k) \<le> 255)"
      by (auto simp add: crc8_fast_def is_byte_def)
  qed
qed

theorem crc_values_are_bytes_witness:
  "0 \<le> make_crc_table 0x31 ! 7 \<and> make_crc_table 0x31 ! 7 \<le> 255
   \<and> (\<exists>crc. crc8_fast (take 1 [0xBE, 0xEF]) 0xFF = Inr crc \<and> 0 \<le> crc \<and> crc \<le> 255
          \<and> 0 \<le> crc XOR uint ([0xBE, 0xEF :: byte] ! 1)
          \<and> crc XOR uint ([0xBE, 0xEF :: byte] ! 1) \<le> 255)"
proof -
  have p: "(0::int) \<le> 0x31" "(0x31::int) \<le> 255" and i: "(0::int) \<le> 0xFF" "(0xFF::int) \<le> 255"
    by simp_all
  note r = crc_values_are_bytes [OF p i, of "[0xBE, 0xEF]"]
  have "make_crc_table 0x31 ! 7 \<in> set (make_crc_table 0x31)"
    by (rule nth_mem) (simp add: length_make_crc_table)
  with r have t: "0 \<le> make_crc_table 0x31 ! 7 \<and> make_crc_table 0x31 ! 7 \<le> 255"
    by blast
  have "(1::nat) \<le> length [0xBE, 0xEF :: byte]" "(1::nat) < length [0xBE, 0xEF :: byte]"
    by simp_all
  with r have "\<exists>crc. crc8_fast (take 1 [0xBE, 0xEF]) 0xFF = Inr crc \<and> 0 \<le> crc \<and> crc \<le> 255
          \<and> 0 \<le> crc XOR uint ([0xBE, 0xEF :: byte] ! 1)
          \<and> crc XOR uint ([0xBE, 0xEF :: byte] ! 1) \<le> 255"
    by blast
  with t show ?thesis by blast
qed

subsection \<open>The decoder on a six-byte frame\<close>

lemma parse_six:
  "parse_sht4x [a, b, c, d, e, f] =
     (case crc8_fast [a, b] 0xFF of Inl x \<Rightarrow> Inl x | Inr t_sum \<Rightarrow>
      if t_sum \<noteq> uint c then Inl (Temperature_CRC_fail t_sum (uint c))
      else case crc8_fast [d, e] 0xFF of Inl x \<Rightarrow> Inl x | Inr h_sum \<Rightarrow>
      if h_sum \<noteq> uint f then Inl (Humidity_CRC_fail h_sum (uint f))
      else Inr (temperature_of (from_bytes_big [a, b]), humidity_of (from_bytes_big [d, e])))"
  by (simp add: parse_sht4x_def getitem_def slice_def split: sum.splits)

text \<open>
  Claim C3. On every six-byte frame both checksums are total, and the decoder fails
  with the temperature mismatch (carrying the computed and the embedded checksum) when
  the checksum of bytes 0-1 differs from byte 2, otherwise with the humidity mismatch
  when the checksum of bytes 3-4 differs from byte 5, and returns a pair of values
  only when both checksums agree.
\<close>

theorem parse_sht4x_checks:
  "\<exists>t_sum h_sum.
     crc8_fast [a, b] 0xFF = Inr t_sum \<and> crc8_fast [d, e] 0xFF = Inr h_sum \<and>
     parse_sht4x [a, b, c, d, e, f] =
       (if t_sum \<noteq> uint c then Inl (Temperature_CRC_fail t_sum (uint c))
        else if h_sum \<noteq> uint f then Inl (Humidity_CRC_fail h_sum (uint f))
        else Inr (temperature_of (from_bytes_big [a, b]), humidity_of (from_bytes_big [d, e])))"
  by (simp add: parse_six crc8_fast_two)

subsection \<open>Single-bit errors\<close>

text \<open>
  The table look-up distributes over exclusive-or, and for an odd polynomial it sends
  no byte but 0 to 0. So the checksums of two words that differ in one bit differ.
\<close>

lemma xor_eq_0_imp: "(a::int) XOR b = 0 \<Longrightarrow> b = a"
proof -
  assume h: "a XOR b = 0"
  have "b = a XOR (a XOR b)" by (simp flip: xor.assoc)
  with h show ?thesis by simp
qed

lemma crc_shift_eq_0:
  assumes "odd poly" "is_byte c" "crc_shift poly c = 0"
  shows "c = 0"
proof (cases "bit c 7")
  case True
  then have "take_bit 8 (push_bit 1 c) XOR poly = 0" using assms(3) by (simp add: crc_shift_alt)
  then have "poly = take_bit 8 (push_bit 1 c)" by (rule xor_eq_0_imp)
  moreover have "even (take_bit 8 (push_bit 1 c))"
    by (simp only: even_take_bit_eq even_push_bit_iff) simp
  ultimately have "even poly" by simp
  with assms(1) show ?thesis by simp
next
  case False
  then have "take_bit 8 (push_bit 1 c) = 0" using assms(3) by (simp add: crc_shift_alt)
  then have "\<not> bit (take_bit 8 (push_bit 1 c)) (Suc n)" for n
    by (simp only: bit_0_eq) simp
  moreover have "bit (take_bit 8 (push_bit 1 c)) (Suc n) \<longleftrightarrow> n < 7 \<and> bit c n" for n
    by (simp only: bit_take_bit_iff bit_push_bit_iff_int) auto
  ultimately have low: "n < 7 \<Longrightarrow> \<not> bit c n" for n
    by simp
  have c: "take_bit 8 c = c" using assms(2) by (simp add: is_byte_take_bit)
  have "\<not> bit c n" for n
  proof (cases "n < 7")
    case True
    then show ?thesis by (rule low)
  next
    case n7: False
    show ?thesis
    proof (cases "n = 7")
      case True
      then show ?thesis using False by simp
    next
      case False
      then have "\<not> n < 8" using n7 by simp
      then have "\<not> bit (take_bit 8 c) n" by (simp add: bit_simps)
      moreover have "bit (take_bit 8 c) n = bit c n" by (simp only: c)
      ultimately show ?thesis by simp
    qed
  qed
  then show ?thesis by (simp add: bit_eq_iff)
qed

lemma crc_bits_eq_0:
  "odd poly \<Longrightarrow> is_byte poly \<Longrightarrow> is_byte c \<Longrightarrow> crc_bits poly n c = 0 \<Longrightarrow> c = 0"
proof (induction n arbitrary: c)
  case 0
  then show ?case by simp
next
  case (Suc n)
  have "is_byte (crc_shift poly c)" using Suc.prems(2) by (rule crc_shift_byte)
  with Suc have "crc_shift poly c = 0" by simp
  with Suc.prems show ?case by (simp add: crc_shift_eq_0)
qed

lemma crc_bits_0: "crc_bits poly n 0 = 0"
  by (induction n) (simp_all add: crc_shift_def)

lemma crc8_fast_crc2: "crc8_fast [a, b] 0xFF = Inr (crc2 (uint a) (uint b))"
  by (simp add: crc8_fast_two crc2_def)

lemma crc2_xor:
  "crc2 (x XOR u) (y XOR v) = crc2 x y XOR crc_bits 0x31 8 (crc_bits 0x31 8 u XOR v)"
proof -
  have "0xFF XOR (x XOR u) = (0xFF XOR x) XOR u" by (simp add: ac_simps)
  then show ?thesis
    by (simp only: crc2_def crc_bits_xor) (simp add: ac_simps)
qed

lemma xor_cancel_int: "(a::int) XOR z = a \<Longrightarrow> z = 0"
proof -
  assume h: "a XOR z = a"
  have "z = a XOR (a XOR z)" by (simp flip: xor.assoc)
  with h show ?thesis by simp
qed

lemma odd_poly: "odd (0x31 :: int)"
  by simp

lemma crc2_flip_first:
  assumes "is_byte u" "u \<noteq> 0"
  shows "crc2 (x XOR u) y \<noteq> crc2 x y"
proof
  assume eq: "crc2 (x XOR u) y = crc2 x y"
  have "crc2 (x XOR u) (y XOR 0) = crc2 x y XOR crc_bits 0x31 8 (crc_bits 0x31 8 u XOR 0)"
    by (rule crc2_xor)
  with eq have "crc2 x y XOR crc_bits 0x31 8 (crc_bits 0x31 8 u) = crc2 x y" by simp
  then have z: "crc_bits 0x31 8 (crc_bits 0x31 8 u) = 0" by (rule xor_cancel_int)
  have "is_byte (crc_bits 0x31 8 u)" using is_byte_poly assms(1) by (rule crc_bits_byte)
  then have "crc_bits 0x31 8 u = 0" using z by (simp add: crc_bits_eq_0 [OF odd_poly is_byte_poly])
  then have "u = 0" using assms(1) by (simp add: crc_bits_eq_0 [OF odd_poly is_byte_poly])
  with assms(2) show False by simp
qed

lemma crc2_flip_second:
  assumes "is_byte v" "v \<noteq> 0"
  shows "crc2 x (y XOR v) \<noteq> crc2 x y"
proof
  assume eq: "crc2 x (y XOR v) = crc2 x y"
  have "crc2 (x XOR 0) (y XOR v) = crc2 x y XOR crc_bits 0x31 8 (crc_bits 0x31 8 0 XOR v)"
    by (rule crc2_xor)
  with eq have "crc2 x y XOR crc_bits 0x31 8 v = crc2 x y" by (simp add: crc_bits_0)
  then have z: "crc_bits 0x31 8 v = 0" by (rule xor_cancel_int)
  then have "v = 0" using assms(1) by (simp add: crc_bits_eq_0 [OF odd_poly is_byte_poly])
  with assms(2) show False by simp
qed

lemma uint_flip_bit:
  assumes "k < 8"
  shows "uint (flip_bit k (a :: byte)) = uint a XOR 2 ^ k"
proof -
  have "uint (push_bit k (1 :: byte)) = take_bit LENGTH(8) (push_bit k (uint (1 :: byte)))"
    by (rule unsigned_push_bit_eq)
  also have "\<dots> = take_bit 8 (2 ^ k)" by (simp add: push_bit_eq_mult)
  also have "\<dots> = 2 ^ k" using assms by (simp add: take_bit_int_eq_self_iff)
  finally have "uint (push_bit k (1 :: byte)) = 2 ^ k" .
  then show ?thesis by (simp only: flip_bit_eq_xor uint_xor)
qed

lemma is_byte_bit: "k < 8 \<Longrightarrow> is_byte (2 ^ k) \<and> (2::int) ^ k \<noteq> 0"
proof -
  assume "k < 8"
  then have "(2::int) ^ k < 2 ^ 8" by (rule power_strict_increasing) simp
  then show ?thesis by (simp add: is_byte_def)
qed

lemma crc8_flip:
  assumes "k < 8"
  shows "crc8_fast [flip_bit k a, b] 0xFF \<noteq> crc8_fast [a, b] 0xFF"
    and "crc8_fast [a, flip_bit k b] 0xFF \<noteq> crc8_fast [a, b] 0xFF"
  using is_byte_bit [OF assms]
  by (simp_all add: crc8_fast_crc2 uint_flip_bit [OF assms] crc2_flip_first crc2_flip_second)

text \<open>
  Claim C4. In a frame whose two checksums are valid, flipping any one bit \<open>k < 8\<close>
  of byte 0 or of byte 1 (the temperature word) makes the decoder fail with the
  temperature mismatch, and flipping any one bit of byte 3 or of byte 4 (the humidity
  word) makes it fail with the humidity mismatch; the checksum bytes stay as they were.
\<close>

theorem single_bit_flip_detected:
  assumes "crc8_fast [a, b] 0xFF = Inr (uint c)" "crc8_fast [d, e] 0xFF = Inr (uint f)" "k < 8"
  shows "(\<exists>x. parse_sht4x [flip_bit k a, b, c, d, e, f] = Inl (Temperature_CRC_fail x (uint c)))
       \<and> (\<exists>x. parse_sht4x [a, flip_bit k b, c, d, e, f] = Inl (Temperature_CRC_fail x (uint c)))
       \<and> (\<exists>x. parse_sht4x [a, b, c, flip_bit k d, e, f] = Inl (Humidity_CRC_fail x (uint f)))
       \<and> (\<exists>x. parse_sht4x [a, b, c, d, flip_bit k e, f] = Inl (Humidity_CRC_fail x (uint f)))"
proof (intro conjI)
  show "\<exists>x. parse_sht4x [flip_bit k a, b, c, d, e, f] = Inl (Temperature_CRC_fail x (uint c))"
    using crc8_flip(1) [OF assms(3), of a b] assms(1)
    by (simp add: parse_six crc8_fast_crc2)
  show "\<exists>x. parse_sht4x [a, flip_bit k b, c, d, e, f] = Inl (Temperature_CRC_fail x (uint c))"
    using crc8_flip(2) [OF assms(3), of a b] assms(1)
    by (simp add: parse_six crc8_fast_crc2)
  show "\<exists>x. parse_sht4x [a, b, c, flip_bit k d, e, f] = Inl (Humidity_CRC_fail x (uint f))"
    using crc8_flip(1) [OF assms(3), of d e] assms(1,2)
    by (simp add: parse_six crc8_fast_crc2)
  show "\<exists>x. parse_sht4x [a, b, c, d, flip_bit k e, f] = Inl (Humidity_CRC_fail x (uint f))"
    using crc8_flip(2) [OF assms(3), of d e] assms(1,2)
    by (simp add: parse_six crc8_fast_crc2)
qed

theorem single_bit_flip_detected_witness:
  "(\<exists>x. parse_sht4x [flip_bit 3 0xBE, 0xEF, 0x92, 0x66, 0x66, 0x93] = Inl (Temperature_CRC_fail x (uint (0x92 :: byte))))
 \<and> (\<exists>x. parse_sht4x [0xBE, flip_bit 3 0xEF, 0x92, 0x66, 0x66, 0x93] = Inl (Temperature_CRC_fail x (uint (0x92 :: byte))))
 \<and> (\<exists>x. parse_sht4x [0xBE, 0xEF, 0x92, flip_bit 3 0x66, 0x66, 0x93] = Inl (Humidity_CRC_fail x (uint (0x93 :: byte))))
 \<and> (\<exists>x. parse_sht4x [0xBE, 0xEF, 0x92, 0x66, flip_bit 3 0x66, 0x93] = Inl (Humidity_CRC_fail x (uint (0x93 :: byte))))"
proof -
  have t: "crc8_fast [0xBE, 0xEF] 0xFF = Inr (uint (0x92 :: byte))" by code_simp
  have h: "crc8_fast [0x66, 0x66] 0xFF = Inr (uint (0x93 :: byte))" by code_simp
  have k: "(3::nat) < 8" by simp
  show ?thesis by (rule single_bit_flip_detected [OF t h k])
qed

subsection \<open>The session\<close>

lemma stub_simps:
  "i2c_open (stub_pi count data) h bus address = Inr 1"
  "i2c_write_byte (stub_pi count data) h hdl b = Inr 0"
  "i2c_read_device (stub_pi count data) h hdl n = Inr (count, data)"
  "i2c_close (stub_pi count data) h hdl = Inr 0"
  "pi' (stub_session count data) = stub_pi count data"
  "handle (stub_session count data) = 1"
  "mode (stub_session count data) = 0xFD"
  by (simp_all add: stub_pi_def stub_session_def)

text \<open>
  Claim C6. When the command write is accepted and the transport's read of 6 bytes
  returns a count other than 6, \<open>read\<close> ends with the error of the message
  ``Expected 6 bytes, got count'' after the three calls write, sleep, read; and so does
  \<open>measurements\<close>, whatever the data: the decoder's result is not part of the outcome.
\<close>

theorem read_wrong_count:
  assumes "i2c_write_byte (pi' s) h (handle s) (mode s) = Inr 0"
    and "i2c_read_device (pi' s) (h @ [I2c_write_byte (handle s) (mode s), Time_sleep settle_time]) (handle s) 6
           = Inr (count, data)"
    and "count \<noteq> 6"
  shows "read s h = (Inl (Expected_bytes 6 count),
                     h @ [I2c_write_byte (handle s) (mode s), Time_sleep settle_time, I2c_read_device (handle s) 6])
       \<and> measurements s h = (Inl (Expected_bytes 6 count),
                     h @ [I2c_write_byte (handle s) (mode s), Time_sleep settle_time, I2c_read_device (handle s) 6])"
proof -
  have r: "read s h = (Inl (Expected_bytes 6 count),
                     h @ [I2c_write_byte (handle s) (mode s), Time_sleep settle_time, I2c_read_device (handle s) 6])"
    using assms by (simp add: read_def Let_def)
  then show ?thesis by (simp add: measurements_def)
qed

theorem read_wrong_count_witness:
  "read (stub_session 5 [0x66, 0x66, 0x93, 0, 0]) [] =
     (Inl (Expected_bytes 6 5), [I2c_write_byte 1 0xFD, Time_sleep settle_time, I2c_read_device 1 6])
   \<and> measurements (stub_session 7 [0x66, 0x66, 0x93, 0, 0, 0x81, 0]) [] =
     (Inl (Expected_bytes 6 7), [I2c_write_byte 1 0xFD, Time_sleep settle_time, I2c_read_device 1 6])"
proof -
  have "(5::int) \<noteq> 6" "(7::int) \<noteq> 6" by simp_all
  then show ?thesis
    using read_wrong_count [of "stub_session 5 [0x66, 0x66, 0x93, 0, 0]" "[]" 5 "[0x66, 0x66, 0x93, 0, 0]"]
      read_wrong_count [of "stub_session 7 [0x66, 0x66, 0x93, 0, 0, 0x81, 0]" "[]" 7 "[0x66, 0x66, 0x93, 0, 0, 0x81, 0]"]
    by (simp add: stub_simps)
qed

text \<open>
  Claim C7, as the code has it. The session keeps no record of \<open>close\<close>: after it,
  \<open>read\<close> and \<open>reset\<close> still issue their command write on the stored handle, as their
  first call to the transport, and go on as the transport answers.
\<close>

theorem read_reset_after_close:
  "take (length h + 2) (snd (read s (snd (close s h))))
     = h @ [I2c_close (handle s), I2c_write_byte (handle s) (mode s)]
   \<and> snd (reset s (snd (close s h)))
     = h @ [I2c_close (handle s), I2c_write_byte (handle s) SOFT_RESET]"
  by (simp add: read_def reset_def close_def Let_def split: sum.splits prod.splits)

text \<open>
  Claim C7 as stated fails: on the example transport, \<open>read\<close> after \<open>close\<close> returns the
  frame and \<open>reset\<close> after \<open>close\<close> returns normally, each after writing to the handle
  that was closed.
\<close>

theorem read_after_close_counterexample:
  "read (stub_session 6 [0x66, 0x66, 0x93, 0, 0, 0x81]) (snd (close (stub_session 6 [0x66, 0x66, 0x93, 0, 0, 0x81]) []))
     = (Inr [0x66, 0x66, 0x93, 0, 0, 0x81],
        [I2c_close 1, I2c_write_byte 1 0xFD, Time_sleep settle_time, I2c_read_device 1 6])
   \<and> reset (stub_session 6 [0x66, 0x66, 0x93, 0, 0, 0x81]) (snd (close (stub_session 6 [0x66, 0x66, 0x93, 0, 0, 0x81]) []))
     = (Inr (), [I2c_close 1, I2c_write_byte 1 0x94])"
  by (simp add: read_def reset_def close_def stub_simps Let_def SOFT_RESET_def)

text \<open>
  Claim C8, as the code has it. Every \<open>close\<close> issues one \<^verbatim>\<open>i2c_close\<close> on the stored
  handle, so a second \<open>close\<close> issues a second release of the same handle.
\<close>

theorem close_issues_one_release:
  "snd (close s h) = h @ [I2c_close (handle s)]
   \<and> snd (close s (snd (close s h))) = h @ [I2c_close (handle s), I2c_close (handle s)]"
  by (simp add: close_def Let_def split: sum.splits)

text \<open>
  Claim C8 as stated fails: two calls of \<open>close\<close> leave two releases of handle 1 in
  the list of calls.
\<close>

theorem close_twice_counterexample:
  "snd (close (stub_session 6 []) (snd (close (stub_session 6 []) []))) = [I2c_close 1, I2c_close 1]"
  by (simp add: close_def stub_simps Let_def)

text \<open>
  Claim C9. The command bytes have the listed values; a session constructed with no
  mode stores \<open>0xFD\<close>; and \<open>read\<close> first writes the stored mode byte on the stored
  handle, the new byte once the caller has assigned one.
\<close>

theorem command_bytes:
  "SOFT_RESET = 0x94
   \<and> NOHEAT_HIGHPRECISION = 0xFD \<and> NOHEAT_MEDPRECISION = 0xF6 \<and> NOHEAT_LOWPRECISION = 0xE0
   \<and> HIGHHEAT_1S = 0x39 \<and> HIGHHEAT_100MS = 0x3A
   \<and> MEDHEAT_1S = 0x32 \<and> MEDHEAT_100MS = 0x33
   \<and> LOWHEAT_1S = 0x2F \<and> LOWHEAT_100MS = 0x30
   \<and> (\<forall>s'. fst (init new_pi pi_arg bus address None h) = Inr s' \<longrightarrow> mode s' = 0xFD)
   \<and> take (Suc (length h)) (snd (read s h)) = h @ [I2c_write_byte (handle s) (mode s)]
   \<and> take (Suc (length h)) (snd (read (s\<lparr>mode := m\<rparr>) h)) = h @ [I2c_write_byte (handle s) m]"
  by (auto simp add: SOFT_RESET_def NOHEAT_HIGHPRECISION_def NOHEAT_MEDPRECISION_def
      NOHEAT_LOWPRECISION_def HIGHHEAT_1S_def HIGHHEAT_100MS_def MEDHEAT_1S_def MEDHEAT_100MS_def
      LOWHEAT_1S_def LOWHEAT_100MS_def init_def read_def Let_def split: sum.splits prod.splits if_splits option.splits)

theorem command_bytes_witness:
  "fst (init (stub_pi 6 []) None 0 0x44 None []) = Inr (stub_session 6 [])
   \<and> mode (stub_session 6 []) = 0xFD"
proof -
  have e: "fst (init (stub_pi 6 []) None 0 0x44 None []) = Inr (stub_session 6 [])"
    by (simp add: init_def stub_simps stub_session_def NOHEAT_HIGHPRECISION_def Let_def)
  have "\<forall>s'. fst (init (stub_pi 6 []) None 0 0x44 None []) = Inr s' \<longrightarrow> mode s' = 0xFD"
    using command_bytes [where new_pi = "stub_pi 6 []" and pi_arg = None and bus = 0
        and address = "0x44" and h = "[]"]
    by blast
  with e have "mode (stub_session 6 []) = 0xFD" by blast
  with e show ?thesis by simp
qed

subsection \<open>Rounding to a double\<close>

text \<open>
  \<open>binade\<close> finds the power of two below its argument; rounding moves a number by at
  most half a unit of its last place, that is by a relative \<open>2 ^ -53\<close> (or by
  \<open>2 ^ -1075\<close> among the subnormal numbers); and an integer below \<open>2 ^ 53\<close> in
  magnitude is a double, so that converting it is exact.
\<close>

lemma binade_ge1:
  assumes "1 \<le> \<bar>x\<bar>"
  shows "2 powi binade x \<le> \<bar>x\<bar> \<and> \<bar>x\<bar> < 2 powi (binade x + 1)"
proof -
  define n where "n = \<lfloor>\<bar>x\<bar>\<rfloor>"
  have n: "0 < n" using assms by (simp add: n_def)
  have b: "binade x = bitlen n - 1" using assms by (simp add: binade_def n_def)
  have pos: "1 \<le> bitlen n" using n bitlen_eq_zero_iff [of n] bitlen_nonneg [of n] by linarith
  from bitlen_bounds [OF n] have lo: "2 ^ nat (bitlen n - 1) \<le> n" and hi: "n < 2 ^ nat (bitlen n)"
    by simp_all
  have "rat_of_int (2 ^ nat (bitlen n - 1)) \<le> of_int n" using lo by (simp only: of_int_le_iff)
  also have "\<dots> \<le> \<bar>x\<bar>" by (simp add: n_def)
  finally have 1: "2 powi binade x \<le> \<bar>x\<bar>"
    using pos by (simp add: b power_int_nonneg_exp)
  have "n + 1 \<le> 2 ^ nat (bitlen n)" using hi by simp
  then have "rat_of_int (n + 1) \<le> of_int (2 ^ nat (bitlen n))" by (simp only: of_int_le_iff)
  moreover have "\<bar>x\<bar> < of_int (n + 1)" unfolding n_def by linarith
  ultimately have 2: "\<bar>x\<bar> < 2 powi (binade x + 1)"
    using pos by (simp add: b power_int_nonneg_exp)
  from 1 2 show ?thesis ..
qed

lemma binade_lt1:
  assumes "x \<noteq> 0" "\<bar>x\<bar> < 1"
  shows "2 powi binade x \<le> \<bar>x\<bar> \<and> \<bar>x\<bar> < 2 powi (binade x + 1)"
proof -
  define y where "y = 1 / \<bar>x\<bar>"
  define n where "n = \<lceil>y\<rceil> - 1"
  have xpos: "0 < \<bar>x\<bar>" using assms by simp
  have y1: "1 < y" using assms xpos by (simp add: y_def)
  have n: "0 < n" using y1 unfolding n_def by linarith
  have b: "binade x = - bitlen n" using assms by (simp add: binade_def n_def y_def)
  have pos: "1 \<le> bitlen n" using n bitlen_eq_zero_iff [of n] bitlen_nonneg [of n] by linarith
  from bitlen_bounds [OF n] have lo: "2 ^ nat (bitlen n - 1) \<le> n" and hi: "n < 2 ^ nat (bitlen n)"
    by simp_all
  have ny: "of_int n < y" "y \<le> of_int n + 1" unfolding n_def by linarith+
  have "n + 1 \<le> 2 ^ nat (bitlen n)" using hi by simp
  then have "rat_of_int (n + 1) \<le> of_int (2 ^ nat (bitlen n))" by (simp only: of_int_le_iff)
  with ny have "y \<le> 2 ^ nat (bitlen n)" by simp
  then have "y \<le> 2 powi bitlen n" using pos by (simp add: power_int_nonneg_exp)
  then have "1 / \<bar>x\<bar> \<le> 2 powi bitlen n" by (simp add: y_def)
  then have "1 \<le> 2 powi bitlen n * \<bar>x\<bar>" using xpos by (simp add: field_simps)
  then have 1: "2 powi binade x \<le> \<bar>x\<bar>"
    by (simp add: b power_int_minus field_simps)
  have "rat_of_int (2 ^ nat (bitlen n - 1)) \<le> of_int n" using lo by (simp only: of_int_le_iff)
  then have "(2::rat) ^ nat (bitlen n - 1) \<le> of_int n" by simp
  with ny have "2 ^ nat (bitlen n - 1) < y" by linarith
  then have "2 powi (bitlen n - 1) < y" using pos by (simp add: power_int_nonneg_exp)
  then have "2 powi (bitlen n - 1) * \<bar>x\<bar> < 1" using xpos by (simp add: y_def field_simps)
  moreover have "binade x + 1 = - (bitlen n - 1)" by (simp add: b)
  ultimately have 2: "\<bar>x\<bar> < 2 powi (binade x + 1)"
    by (simp only: power_int_minus) (simp add: field_simps)
  from 1 2 show ?thesis ..
qed

lemma binade_bounds:
  "x \<noteq> 0 \<Longrightarrow> 2 powi binade x \<le> \<bar>x\<bar> \<and> \<bar>x\<bar> < 2 powi (binade x + 1)"
  using binade_ge1 [of x] binade_lt1 [of x] by (cases "1 \<le> \<bar>x\<bar>") auto

lemma pow2_less_imp: "(2::rat) powi k < 2 powi m \<Longrightarrow> k < m"
proof (rule ccontr)
  assume a: "(2::rat) powi k < 2 powi m" and "\<not> k < m"
  then have "m \<le> k" by simp
  then have "(2::rat) powi m \<le> 2 powi k" by (rule power_int_increasing) simp
  with a show False by simp
qed

lemma binade_eqI:
  assumes "2 powi k \<le> \<bar>x\<bar>" "\<bar>x\<bar> < 2 powi (k + 1)"
  shows "binade x = k"
proof -
  have "0 < (2::rat) powi k" by simp
  with assms(1) have "0 < \<bar>x\<bar>" by linarith
  then have x: "x \<noteq> 0" by simp
  from binade_bounds [OF x] have b1: "2 powi binade x \<le> \<bar>x\<bar>" and b2: "\<bar>x\<bar> < 2 powi (binade x + 1)"
    by simp_all
  have "(2::rat) powi k < 2 powi (binade x + 1)" using assms(1) b2 by simp
  then have "k < binade x + 1" by (rule pow2_less_imp)
  moreover have "(2::rat) powi binade x < 2 powi (k + 1)" using assms(2) b1 by simp
  then have "binade x < k + 1" by (rule pow2_less_imp)
  ultimately show ?thesis by simp
qed

lemma round_half_even_error: "\<bar>of_int (round_half_even y) - y\<bar> \<le> 1 / 2"
proof -
  define f where "f = \<lfloor>y\<rfloor>"
  have f: "of_int f \<le> y" "y < of_int f + 1" unfolding f_def by linarith+
  have "round_half_even y =
      (if y - of_int f < 1 / 2 then f
       else if 1 / 2 < y - of_int f then f + 1
       else if even f then f else f + 1)"
    by (simp add: round_half_even_def Let_def f_def)
  with f show ?thesis by (auto simp add: abs_if)
qed

lemma floor_numeral_div: "\<lfloor>numeral a / numeral b :: rat\<rfloor> = numeral a div numeral b"
  using floor_divide_of_int_eq [of "numeral a" "numeral b", where ?'a = rat] by simp

lemma round_half_even_of_int: "round_half_even (of_int m) = m"
  by (simp add: round_half_even_def)

lemma round_double_error: "\<bar>round_double x - x\<bar> \<le> \<bar>x\<bar> / 2 ^ 53 + 1 / 2 ^ 1075"
proof (cases "x = 0")
  case True
  then show ?thesis by (simp add: round_double_def)
next
  case False
  define e where "e = max (binade x - 52) (- 1074)"
  define m where "m = round_half_even (x / 2 powi e)"
  have p: "0 < (2::rat) powi e" by simp
  have r: "round_double x = of_int m * 2 powi e"
    using False by (simp add: round_double_def e_def m_def Let_def)
  have "round_double x - x = (of_int m - x / 2 powi e) * 2 powi e"
    using p by (simp add: r field_simps)
  then have "\<bar>round_double x - x\<bar> = \<bar>of_int m - x / 2 powi e\<bar> * 2 powi e"
    using p by (simp add: abs_mult)
  also have "\<dots> \<le> 1 / 2 * 2 powi e"
    using round_half_even_error [of "x / 2 powi e"] p
    unfolding m_def by (intro mult_right_mono) simp_all
  finally have le: "\<bar>round_double x - x\<bar> \<le> 2 powi e / 2" by simp
  show ?thesis
  proof (cases "- 1074 \<le> binade x - 52")
    case True
    then have "e = binade x - 52" by (simp add: e_def)
    then have "(2::rat) powi e = 2 powi binade x / 2 ^ 52"
      by (simp add: power_int_diff)
    moreover have "2 powi binade x \<le> \<bar>x\<bar>" using binade_bounds [OF False] by simp
    ultimately have "(2::rat) powi e / 2 \<le> \<bar>x\<bar> / 2 ^ 53" by simp
    with le show ?thesis by simp
  next
    case False
    then have "e = - 1074" by (simp add: e_def)
    then have "(2::rat) powi e / 2 = 1 / 2 ^ 1075"
      by (simp add: power_int_minus_divide)
    with le have "\<bar>round_double x - x\<bar> \<le> 1 / 2 ^ 1075" by simp
    moreover have "0 \<le> \<bar>x\<bar> / 2 ^ 53" by simp
    ultimately show ?thesis by linarith
  qed
qed

lemma round_double_eq:
  assumes "2 powi k \<le> \<bar>x\<bar>" "\<bar>x\<bar> < 2 powi (k + 1)" "- 1022 \<le> k"
  shows "round_double x = of_int (round_half_even (x / 2 powi (k - 52))) * 2 powi (k - 52)"
proof -
  have "0 < (2::rat) powi k" by simp
  with assms(1) have "0 < \<bar>x\<bar>" by linarith
  then have x: "x \<noteq> 0" by simp
  have "binade x = k" using assms(1,2) by (rule binade_eqI)
  moreover have "max (k - 52) (- 1074) = k - 52" using assms(3) by simp
  ultimately show ?thesis using x by (simp only: round_double_def Let_def if_False)
qed

lemma round_double_of_int:
  assumes "\<bar>n\<bar> < 2 ^ 53"
  shows "round_double (of_int n) = of_int n"
proof (cases "n = 0")
  case True
  then show ?thesis by (simp add: round_double_def)
next
  case False
  define x where "x = rat_of_int n"
  define k where "k = binade x"
  have x: "x \<noteq> 0" using False by (simp add: x_def)
  have "1 \<le> \<bar>n\<bar>" using False by simp
  then have "rat_of_int 1 \<le> of_int \<bar>n\<bar>" by (simp only: of_int_le_iff)
  then have x1: "1 \<le> \<bar>x\<bar>" by (simp add: x_def)
  have "rat_of_int \<bar>n\<bar> < of_int (2 ^ 53)" using assms by (simp only: of_int_less_iff)
  then have x2: "\<bar>x\<bar> < 2 powi 53" by (simp add: x_def)
  from binade_bounds [OF x] have b: "2 powi k \<le> \<bar>x\<bar>" "\<bar>x\<bar> < 2 powi (k + 1)"
    by (simp_all add: k_def)
  have "(2::rat) powi k < 2 powi 53" using b(1) x2 by linarith
  then have k53: "k < 53" by (rule pow2_less_imp)
  have "(2::rat) powi 0 < 2 powi (k + 1)" using b(2) x1 by simp
  then have k0: "0 \<le> k" using pow2_less_imp [of 0 "k + 1"] by simp
  define j where "j = nat (52 - k)"
  have e: "max (k - 52) (- 1074) = - int j" using k53 k0 by (simp add: j_def max_def)
  have p: "(2::rat) powi (- int j) = 1 / 2 ^ j" by (simp add: power_int_minus_divide)
  have "x / (1 / 2 ^ j) = of_int (n * 2 ^ j)" by (simp add: x_def)
  then have "round_half_even (x / (1 / 2 ^ j)) = n * 2 ^ j"
    by (simp only: round_half_even_of_int)
  then have "round_double x = of_int (n * 2 ^ j) * (1 / 2 ^ j)"
    using x by (simp add: round_double_def Let_def e p flip: k_def)
  then show ?thesis by (simp add: x_def)
qed

lemma float_of_int_small: "\<bar>n\<bar> < 2 ^ 53 \<Longrightarrow> float_of_int n = of_int n"
  by (simp add: float_of_int_def round_double_of_int)

lemma round_double_numeral: "round_double 1 = 1" "round_double 100 = 100" "round_double 25 = 25"
  using round_double_of_int [of 1] round_double_of_int [of 100] round_double_of_int [of 25]
  by simp_all

lemma uint_hi_lo:
  fixes t :: "16 word"
  shows "from_bytes_big [ucast (drop_bit 8 t), ucast t] = uint t"
proof -
  have lo: "uint (ucast t :: byte) = take_bit 8 (uint t)"
    by (simp add: unsigned_ucast_eq)
  have "uint (ucast (drop_bit 8 t) :: byte) = take_bit 8 (uint (drop_bit 8 t))"
    by (simp add: unsigned_ucast_eq)
  also have "\<dots> = take_bit 8 (drop_bit 8 (uint t))"
  proof -
    have "take_bit 16 (uint t) = uint t"
      using uint_lt2p [of t] by (simp add: take_bit_int_eq_self_iff)
    then show ?thesis by (simp add: unsigned_drop_bit_eq)
  qed
  also have "\<dots> = drop_bit 8 (uint t)"
  proof -
    have "uint t < 2 ^ 16" using uint_lt2p [of t] by simp
    then have "drop_bit 8 (uint t) < 2 ^ 8" by (simp add: drop_bit_eq_div)
    then show ?thesis by (simp add: take_bit_int_eq_self_iff drop_bit_eq_div pos_imp_zdiv_nonneg_iff)
  qed
  finally have hi: "uint (ucast (drop_bit 8 t) :: byte) = drop_bit 8 (uint t)" .
  have "drop_bit 8 (uint t) * 256 + take_bit 8 (uint t) = uint t"
    by (simp add: drop_bit_eq_div take_bit_eq_mod)
  then show ?thesis by (simp add: from_bytes_big_def hi lo)
qed

subsection \<open>The accuracy of the two conversions\<close>

text \<open>
  The decoder rounds twice for the humidity and three times for the temperature. The
  rounding errors add up to less than \<open>501\<close> and \<open>924\<close> units of \<open>2 ^ -53\<close>.
\<close>

lemma float_error:
  "\<bar>float_truediv x y - x / y\<bar> \<le> \<bar>x / y\<bar> / 2 ^ 53 + 1 / 2 ^ 1075"
  "\<bar>float_mul x y - x * y\<bar> \<le> \<bar>x * y\<bar> / 2 ^ 53 + 1 / 2 ^ 1075"
  "\<bar>float_add x y - (x + y)\<bar> \<le> \<bar>x + y\<bar> / 2 ^ 53 + 1 / 2 ^ 1075"
  by (simp_all only: float_truediv_def float_mul_def float_add_def round_double_error)

lemma ratio_bounds:
  assumes "0 \<le> n" "n \<le> 65535"
  shows "0 \<le> rat_of_int n / 65535" "rat_of_int n / 65535 \<le> 1"
proof -
  have "rat_of_int 0 \<le> of_int n" "rat_of_int n \<le> of_int 65535"
    using assms by (simp_all only: of_int_le_iff)
  then show "0 \<le> rat_of_int n / 65535" "rat_of_int n / 65535 \<le> 1" by simp_all
qed

lemma abs_scaled_triangle:
  fixes a :: rat
  assumes "0 \<le> k"
  shows "\<bar>a - k * q\<bar> \<le> \<bar>a - k * d\<bar> + k * \<bar>d - q\<bar>"
proof -
  have "a - k * q = (a - k * d) + k * (d - q)" by (simp add: algebra_simps)
  then have "\<bar>a - k * q\<bar> \<le> \<bar>a - k * d\<bar> + \<bar>k * (d - q)\<bar>"
    using abs_triangle_ineq [of "a - k * d" "k * (d - q)"] by simp
  also have "\<bar>k * (d - q)\<bar> = k * \<bar>d - q\<bar>" using assms by (simp add: abs_mult)
  finally show ?thesis .
qed

lemma abs_shift_triangle:
  fixes a :: rat
  shows "\<bar>a - (c + y)\<bar> \<le> \<bar>a - (c + x)\<bar> + \<bar>x - y\<bar>"
proof -
  have "a - (c + y) = (a - (c + x)) + (x - y)" by simp
  then show ?thesis using abs_triangle_ineq [of "a - (c + x)" "x - y"] by simp
qed

lemma humidity_accuracy:
  assumes "0 \<le> n" "n \<le> 65535"
  shows "\<bar>float_mul 100 (float_truediv (of_int n) 65535) - 100 * (of_int n / 65535)\<bar> \<le> 1 / 10 ^ 12"
proof -
  define q where "q = rat_of_int n / 65535"
  define d where "d = float_truediv (of_int n) 65535"
  define u :: rat where "u = 1 / 2 ^ 53"
  define v :: rat where "v = 1 / 2 ^ 1075"
  have q: "0 \<le> q" "q \<le> 1" using ratio_bounds [OF assms] by (simp_all add: q_def)
  have uv: "0 \<le> u" "u \<le> 1" "0 \<le> v" "v \<le> u" by (simp_all add: u_def v_def)
  have "\<bar>d - q\<bar> \<le> \<bar>q\<bar> * u + v"
    using float_error(1) [of "of_int n" 65535] by (simp add: d_def q_def u_def v_def)
  also have "\<bar>q\<bar> * u \<le> 1 * u" using q uv by (intro mult_right_mono) simp_all
  finally have e1: "\<bar>d - q\<bar> \<le> u + v" by simp
  then have dabs: "\<bar>d\<bar> \<le> 3" using q uv by linarith
  have "\<bar>float_mul 100 d - 100 * d\<bar> \<le> \<bar>100 * d\<bar> * u + v"
    using float_error(2) [of 100 d] by (simp add: u_def v_def)
  also have "\<bar>100 * d\<bar> * u \<le> 300 * u"
    using dabs uv by (intro mult_right_mono) (simp_all add: abs_mult)
  finally have e2: "\<bar>float_mul 100 d - 100 * d\<bar> \<le> 300 * u + v" by simp
  have "\<bar>float_mul 100 d - 100 * q\<bar> \<le> \<bar>float_mul 100 d - 100 * d\<bar> + 100 * \<bar>d - q\<bar>"
    by (rule abs_scaled_triangle) simp
  also have "\<dots> \<le> (300 * u + v) + 100 * (u + v)"
    using e1 e2 by (intro add_mono mult_left_mono) simp_all
  also have "\<dots> \<le> 501 * u" using uv by (simp add: algebra_simps)
  also have "\<dots> \<le> 1 / 10 ^ 12" by (simp add: u_def)
  finally show ?thesis by (simp add: d_def q_def)
qed

lemma temperature_accuracy:
  assumes "0 \<le> n" "n \<le> 65535"
  shows "\<bar>float_add (- 45) (float_mul 175 (float_truediv (of_int n) 65535))
          - (- 45 + 175 * (of_int n / 65535))\<bar> \<le> 1 / 10 ^ 12"
proof -
  define q where "q = rat_of_int n / 65535"
  define d where "d = float_truediv (of_int n) 65535"
  define p where "p = float_mul 175 d"
  define u :: rat where "u = 1 / 2 ^ 53"
  define v :: rat where "v = 1 / 2 ^ 1075"
  have q: "0 \<le> q" "q \<le> 1" using ratio_bounds [OF assms] by (simp_all add: q_def)
  have uv: "0 \<le> u" "u \<le> 1 / 1000" "0 \<le> v" "v \<le> u" by (simp_all add: u_def v_def)
  have "\<bar>d - q\<bar> \<le> \<bar>q\<bar> * u + v"
    using float_error(1) [of "of_int n" 65535] by (simp add: d_def q_def u_def v_def)
  also have "\<bar>q\<bar> * u \<le> 1 * u" using q uv by (intro mult_right_mono) simp_all
  finally have e1: "\<bar>d - q\<bar> \<le> u + v" by simp
  then have dabs: "\<bar>d\<bar> \<le> 2" using q uv by linarith
  have "\<bar>p - 175 * d\<bar> \<le> \<bar>175 * d\<bar> * u + v"
    using float_error(2) [of 175 d] by (simp add: p_def u_def v_def)
  also have "\<bar>175 * d\<bar> * u \<le> 350 * u"
    using dabs uv by (intro mult_right_mono) (simp_all add: abs_mult)
  finally have e2: "\<bar>p - 175 * d\<bar> \<le> 350 * u + v" by simp
  have "\<bar>p - 175 * q\<bar> \<le> \<bar>p - 175 * d\<bar> + 175 * \<bar>d - q\<bar>"
    by (rule abs_scaled_triangle) simp
  also have "\<dots> \<le> (350 * u + v) + 175 * (u + v)"
    using e1 e2 by (intro add_mono mult_left_mono) simp_all
  finally have e3: "\<bar>p - 175 * q\<bar> \<le> 525 * u + 176 * v" by simp
  then have pabs: "\<bar>- 45 + p\<bar> \<le> 222" using q uv by (simp add: abs_le_iff)
  have "\<bar>float_add (- 45) p - (- 45 + p)\<bar> \<le> \<bar>- 45 + p\<bar> * u + v"
    using float_error(3) [of "- 45" p] by (simp add: u_def v_def)
  also have "\<bar>- 45 + p\<bar> * u \<le> 222 * u"
    using pabs uv by (intro mult_right_mono) simp_all
  finally have e4: "\<bar>float_add (- 45) p - (- 45 + p)\<bar> \<le> 222 * u + v" by simp
  have "\<bar>float_add (- 45) p - (- 45 + 175 * q)\<bar>
          \<le> \<bar>float_add (- 45) p - (- 45 + p)\<bar> + \<bar>p - 175 * q\<bar>"
    by (rule abs_shift_triangle)
  also have "\<dots> \<le> (222 * u + v) + (525 * u + 176 * v)"
    using e3 e4 by (intro add_mono) simp_all
  also have "\<dots> \<le> 924 * u" using uv by (simp add: algebra_simps)
  also have "\<dots> \<le> 1 / 10 ^ 12" by (simp add: u_def)
  finally show ?thesis by (simp add: p_def d_def q_def)
qed

lemma temperature_of_word:
  assumes "0 \<le> n" "n \<le> 65535"
  shows "temperature_of n = float_add (- 45) (float_mul 175 (float_truediv (of_int n) 65535))"
proof -
  have "\<bar>n\<bar> < 2 ^ 53" using assms by simp
  then have "float_of_int n = of_int n" by (rule float_of_int_small)
  moreover have "float_of_int (- 45) = - 45" "float_of_int 175 = 175"
    using float_of_int_small [of "- 45"] float_of_int_small [of 175] by simp_all
  ultimately show ?thesis by (simp add: temperature_of_def)
qed

lemma humidity_of_word:
  assumes "0 \<le> n" "n \<le> 65535"
  shows "humidity_of n = float_mul 100 (float_truediv (of_int n) 65535)"
proof -
  have "\<bar>n\<bar> < 2 ^ 53" using assms by simp
  then have "float_of_int n = of_int n" by (rule float_of_int_small)
  moreover have "float_of_int 100 = 100"
    using float_of_int_small [of 100] by simp
  ultimately show ?thesis by (simp add: humidity_of_def)
qed

lemma uint_word16_range:
  fixes t :: "16 word"
  shows "0 \<le> uint t" "uint t \<le> 65535"
  using uint_lt2p [of t] by simp_all

text \<open>The three roundings for the raw word \<open>0x6666\<close>, carried out: Python prints \<open>25.0\<close>.\<close>

lemma float_truediv_example: "float_truediv 26214 65535 = 3602879701896397 / 9007199254740992"
  unfolding float_truediv_def
  by (subst round_double_eq [where k = "- 2"])
    (simp_all add: round_half_even_def Let_def floor_numeral_div)

lemma float_mul_example: "float_mul 175 (3602879701896397 / 9007199254740992) = 70"
  unfolding float_mul_def
  by (subst round_double_eq [where k = 6])
    (simp_all add: round_half_even_def Let_def floor_numeral_div)

lemma float_add_example: "float_add (- 45) 70 = 25"
  by (simp add: float_add_def round_double_numeral)

lemma temperature_example:
  "float_add (- 45) (float_mul 175 (float_truediv 26214 65535)) = 25"
  by (simp add: float_truediv_example float_mul_example float_add_example)

text \<open>
  Claim C2. For all 16-bit raw words \<open>t\<close> and \<open>h\<close>, a frame that carries them most
  significant byte first, with valid checksums, decodes to the temperature
  \<open>-45 + 175 * (t / 65535)\<close> and the humidity \<open>100 * (h / 65535)\<close>, each evaluated in
  double arithmetic as Python does, on the unsigned value of the word, with no
  further rounding or clamping step; these doubles are within \<open>1 / 10 ^ 12\<close> of the
  formulas' exact values. The raw word \<open>0x0000\<close> gives the humidity 0, the raw word
  \<open>0xFFFF\<close> the humidity 100, and the raw word \<open>0x6666\<close> a temperature within 0.01 of 25.
\<close>

theorem parse_sht4x_values:
  fixes t h :: "16 word"
  assumes "crc8_fast [ucast (drop_bit 8 t), ucast t] 0xFF = Inr (uint c)"
      and "crc8_fast [ucast (drop_bit 8 h), ucast h] 0xFF = Inr (uint f)"
  shows "\<exists>temperature humidity.
     parse_sht4x [ucast (drop_bit 8 t), ucast t, c, ucast (drop_bit 8 h), ucast h, f]
       = Inr (temperature, humidity)
     \<and> temperature = float_add (- 45) (float_mul 175 (float_truediv (of_int (uint t)) 65535))
     \<and> humidity = float_mul 100 (float_truediv (of_int (uint h)) 65535)
     \<and> \<bar>temperature - (- 45 + 175 * (of_int (uint t) / 65535))\<bar> \<le> 1 / 10 ^ 12
     \<and> \<bar>humidity - 100 * (of_int (uint h) / 65535)\<bar> \<le> 1 / 10 ^ 12
     \<and> (h = 0 \<longrightarrow> humidity = 0)
     \<and> (h = 0xFFFF \<longrightarrow> humidity = 100)
     \<and> (t = 0x6666 \<longrightarrow> \<bar>temperature - 25\<bar> \<le> 1 / 100)"
proof -
  define T where "T = float_add (- 45) (float_mul 175 (float_truediv (of_int (uint t)) 65535))"
  define H where "H = float_mul 100 (float_truediv (of_int (uint h)) 65535)"
  have p: "parse_sht4x [ucast (drop_bit 8 t), ucast t, c, ucast (drop_bit 8 h), ucast h, f]
       = Inr (T, H)"
    using assms
    by (simp add: parse_six uint_hi_lo T_def H_def
        temperature_of_word [OF uint_word16_range] humidity_of_word [OF uint_word16_range])
  have ta: "\<bar>T - (- 45 + 175 * (of_int (uint t) / 65535))\<bar> \<le> 1 / 10 ^ 12"
    unfolding T_def by (rule temperature_accuracy [OF uint_word16_range])
  have ha: "\<bar>H - 100 * (of_int (uint h) / 65535)\<bar> \<le> 1 / 10 ^ 12"
    unfolding H_def by (rule humidity_accuracy [OF uint_word16_range])
  have h0: "h = 0 \<longrightarrow> H = 0"
    by (simp add: H_def float_mul_def float_truediv_def round_double_def)
  have h1: "h = 0xFFFF \<longrightarrow> H = 100"
    by (simp add: H_def float_mul_def float_truediv_def round_double_numeral)
  have t1: "t = 0x6666 \<longrightarrow> \<bar>T - 25\<bar> \<le> 1 / 100"
  proof
    assume "t = 0x6666"
    then have "- 45 + 175 * (rat_of_int (uint t) / 65535) = 25" by simp
    with ta have "\<bar>T - 25\<bar> \<le> 1 / 10 ^ 12" by simp
    then show "\<bar>T - 25\<bar> \<le> 1 / 100" by simp
  qed
  from p ta ha h0 h1 t1 show ?thesis unfolding T_def H_def by blast
qed

theorem parse_sht4x_values_witness:
  "parse_sht4x [0x66, 0x66, 0x93, 0xFF, 0xFF, 0xAC] = Inr (25, 100)
   \<and> parse_sht4x [0x66, 0x66, 0x93, 0, 0, 0x81] = Inr (25, 0)"
proof -
  have t: "crc8_fast [ucast (drop_bit 8 (0x6666 :: 16 word)), ucast (0x6666 :: 16 word)] 0xFF
             = Inr (uint (0x93 :: byte))"
    by code_simp
  have h1: "crc8_fast [ucast (drop_bit 8 (0xFFFF :: 16 word)), ucast (0xFFFF :: 16 word)] 0xFF
             = Inr (uint (0xAC :: byte))"
    by code_simp
  have h0: "crc8_fast [ucast (drop_bit 8 (0 :: 16 word)), ucast (0 :: 16 word)] 0xFF
             = Inr (uint (0x81 :: byte))"
    by code_simp
  have b: "ucast (drop_bit 8 (0x6666 :: 16 word)) = (0x66 :: byte)"
    "ucast (0x6666 :: 16 word) = (0x66 :: byte)"
    "ucast (drop_bit 8 (0xFFFF :: 16 word)) = (0xFF :: byte)"
    "ucast (0xFFFF :: 16 word) = (0xFF :: byte)"
    "ucast (drop_bit 8 (0 :: 16 word)) = (0 :: byte)"
    "ucast (0 :: 16 word) = (0 :: byte)"
    by code_simp+
  from parse_sht4x_values [OF t h1, unfolded b] obtain T H
    where p: "parse_sht4x [0x66, 0x66, 0x93, 0xFF, 0xFF, 0xAC] = Inr (T, H)"
      and T: "T = float_add (- 45)
                (float_mul 175 (float_truediv (of_int (uint (0x6666 :: 16 word))) 65535))"
      and H: "(0xFFFF :: 16 word) = 0xFFFF \<longrightarrow> H = 100"
    by blast
  from parse_sht4x_values [OF t h0, unfolded b] obtain T' H'
    where p': "parse_sht4x [0x66, 0x66, 0x93, 0, 0, 0x81] = Inr (T', H')"
      and T': "T' = float_add (- 45)
                (float_mul 175 (float_truediv (of_int (uint (0x6666 :: 16 word))) 65535))"
      and H': "(0 :: 16 word) = 0 \<longrightarrow> H' = 0"
    by blast
  have "T = 25" "T' = 25" using T T' by (simp_all add: temperature_example)
  moreover have "H = 100" "H' = 0" using H H' by simp_all
  ultimately show ?thesis using p p' by simp
qed

end
